theory Spec2Isabelle
  imports Main "HOL-Library.Sublist"
begin

section \<open>Text\<close>

text \<open>
  A Python \<open>str\<close> is a sequence of Unicode code points. A code point is a natural number
  here; the literals of the script are ASCII and are written as HOL strings, mapped to
  their code points by \<open>lit\<close>.
\<close>

type_synonym codepoint = nat
type_synonym str = "codepoint list"

definition lit :: "string \<Rightarrow> str" where
  "lit s = map of_char s"

definition LF :: codepoint where
  "LF = 10"

definition CR :: codepoint where
  "CR = 13"

section \<open>The built-in \<open>str.replace\<close>\<close>

text \<open>
  \<open>s.replace(old, new)\<close> scans \<open>s\<close> from the left. Where \<open>old\<close> starts at the current
  position, \<open>new\<close> is emitted and the scan goes on behind that copy of \<open>old\<close>; elsewhere the
  current character is emitted. With an empty \<open>old\<close>, Python puts \<open>new\<close> in front of every
  character and at the end.
\<close>

function replace :: "'a list \<Rightarrow> 'a list \<Rightarrow> 'a list \<Rightarrow> 'a list" where
  "replace [] old new = (if old = [] then new else [])"
| "replace (c # cs) old new =
     (if old = [] then new @ c # replace cs old new
      else if prefix old (c # cs) then new @ replace (drop (length old) (c # cs)) old new
      else c # replace cs old new)"
  by pat_completeness auto
termination
  by (relation "measure (\<lambda>(s, old, new). length s)") (auto simp: neq_Nil_conv)

declare replace.simps [simp del]

section \<open>The script \<open>update_extract_import.py\<close>\<close>

definition target :: string where
  "target = ''src/extract.js''"

definition search1 :: str where
  "search1 = lit ''import { searchConfig } from './search-config.js';''"

definition replacement1 :: str where
  "replacement1 = lit ''import { getSearchConfig } from './search-config.js';''"

definition search2 :: str where
  "search2 = lit ''    // Build the Autotrader search URL with parameters\<newline>    // Based on actual Autotrader URL format from user's search\<newline>    const searchParams = new URLSearchParams(searchConfig);''"

definition replacement2 :: str where
  "replacement2 = lit ''    // Build the Autotrader search URL with parameters\<newline>    // Based on actual Autotrader URL format from user's search\<newline>    const searchConfig = getSearchConfig();\<newline>    const searchParams = new URLSearchParams(searchConfig);''"

definition message :: str where
  "message = lit ''Updated extract.js to use getSearchConfig()''"

text \<open>Lines 8 to 17 of the script: the two calls of \<open>content.replace\<close>, one after the other.\<close>

definition patch :: "str \<Rightarrow> str" where
  "patch content =
     (let content = replace content search1 replacement1;
          content = replace content search2 replacement2
      in content)"

subsection \<open>Files and standard output\<close>

text \<open>
  The world of the script is the file system and standard output. A file is stored as
  the code points its bytes decode to under UTF-8, so two files are equal byte for byte
  exactly when they are equal here. Files that are not valid UTF-8 and access rights are
  outside the model: of the failures of \<open>open\<close>, only the missing file is a branch.

  The script opens the file in text mode with the default \<open>newline=None\<close>. On reading,
  Python then translates \<open>\r\n\<close> and a lone \<open>\r\<close> to \<open>\n\<close>; on writing, it translates every
  \<open>\n\<close> to the line separator of the platform.
\<close>

datatype platform = Posix | Windows

fun os_linesep :: "platform \<Rightarrow> str" where
  "os_linesep Posix = [LF]"
| "os_linesep Windows = [CR, LF]"

fun universal_newlines :: "str \<Rightarrow> str" where
  "universal_newlines [] = []"
| "universal_newlines [c] = [if c = CR then LF else c]"
| "universal_newlines (c # d # cs) =
     (if c = CR \<and> d = LF then LF # universal_newlines cs
      else if c = CR then LF # universal_newlines (d # cs)
      else c # universal_newlines (d # cs))"

fun write_newlines :: "platform \<Rightarrow> str \<Rightarrow> str" where
  "write_newlines pf [] = []"
| "write_newlines pf (c # cs) = (if c = LF then os_linesep pf else [c]) @ write_newlines pf cs"

datatype io_error = FileNotFoundError

record world =
  files :: "string \<rightharpoonup> str"
  stdout :: "str list"

text \<open>\<open>open(p, 'r', encoding='utf-8')\<close> followed by \<open>f.read()\<close>.\<close>

definition read_text :: "string \<Rightarrow> world \<Rightarrow> io_error + str" where
  "read_text p w =
     (case files w p of
        None \<Rightarrow> Inl FileNotFoundError
      | Some raw \<Rightarrow> Inr (universal_newlines raw))"

text \<open>\<open>open(p, 'w', encoding='utf-8')\<close> followed by \<open>f.write(s)\<close>: the file is created or
  overwritten.\<close>

definition write_text :: "platform \<Rightarrow> string \<Rightarrow> str \<Rightarrow> world \<Rightarrow> world" where
  "write_text pf p s w = w\<lparr>files := (files w)(p \<mapsto> write_newlines pf s)\<rparr>"

text \<open>\<open>print(s)\<close> adds one line to standard output.\<close>

definition print :: "str \<Rightarrow> world \<Rightarrow> world" where
  "print s w = w\<lparr>stdout := stdout w @ [s]\<rparr>"

text \<open>
  The whole script. An exception of the read step is not caught: the run ends there, with
  the world as it was.
\<close>

definition run :: "platform \<Rightarrow> world \<Rightarrow> (io_error + unit) \<times> world" where
  "run pf w =
     (case read_text target w of
        Inl e \<Rightarrow> (Inl e, w)
      | Inr content \<Rightarrow>
          (Inr (), print message (write_text pf target (patch content) w)))"

text \<open>The interpreter exits with status 1 on an uncaught exception and 0 otherwise.\<close>

definition exit_code :: "io_error + unit \<Rightarrow> nat" where
  "exit_code r = (case r of Inl e \<Rightarrow> 1 | Inr u \<Rightarrow> 0)"

section \<open>Occurrences of a literal\<close>

text \<open>The number of positions of \<open>s\<close> at which \<open>p\<close> starts.\<close>

fun occurrences :: "'a list \<Rightarrow> 'a list \<Rightarrow> nat" where
  "occurrences p [] = (if p = [] then 1 else 0)"
| "occurrences p (c # cs) = (if prefix p (c # cs) then 1 else 0) + occurrences p cs"

text \<open>
  \<open>no_start q x\<close>: no copy of \<open>x\<close> can start at a position of \<open>q\<close>, whatever follows \<open>q\<close>:
  at no position of \<open>q\<close> does \<open>x\<close> lie inside \<open>q\<close>, and no non-empty end of \<open>q\<close> is a
  beginning of \<open>x\<close>.
\<close>

fun no_start :: "'a list \<Rightarrow> 'a list \<Rightarrow> bool" where
  "no_start [] x = True"
| "no_start (c # q) x = (\<not> prefix x (c # q) \<and> \<not> prefix (c # q) x \<and> no_start q x)"

section \<open>What the specification says of a replacement step\<close>

text \<open>
  The specification describes a step as: every non-overlapping literal occurrence of the
  search string is replaced, and a text without the search string is left as it is.
  \<open>replaced_all old new s t\<close> writes this out, independently of the scan of \<open>replace\<close>:
  \<open>s\<close> is cut at its leftmost copy of \<open>old\<close>, then at the leftmost copy behind that one,
  and so on, and \<open>t\<close> is \<open>s\<close> with \<open>new\<close> in place of each of these copies.
\<close>

inductive replaced_all :: "'a list \<Rightarrow> 'a list \<Rightarrow> 'a list \<Rightarrow> 'a list \<Rightarrow> bool"
  for old new :: "'a list" where
  absent: "\<not> sublist old s \<Longrightarrow> replaced_all old new s s"
| leftmost: "\<not> sublist old (u @ butlast old) \<Longrightarrow> replaced_all old new rest t \<Longrightarrow>
     replaced_all old new (u @ old @ rest) (u @ new @ t)"

text \<open>The parts of the second pair of literals: the two comment lines, the line that the
  replacement adds, and the line that uses \<open>searchConfig\<close>.\<close>

definition comment_lines :: str where
  "comment_lines = lit ''    // Build the Autotrader search URL with parameters\<newline>    // Based on actual Autotrader URL format from user's search\<newline>''"

definition inserted_line :: str where
  "inserted_line = lit ''    const searchConfig = getSearchConfig();\<newline>''"

definition usage_line :: str where
  "usage_line = lit ''    const searchParams = new URLSearchParams(searchConfig);''"

section \<open>Basic facts about \<open>replace\<close>\<close>

lemma replace_Nil: "old \<noteq> [] \<Longrightarrow> replace [] old new = []"
  by (simp add: replace.simps)

lemma replace_match:
  assumes "old \<noteq> []"
  shows "replace (old @ rest) old new = new @ replace rest old new"
proof -
  from assms obtain a as where old: "old = a # as"
    by (cases old) auto
  show ?thesis
    by (simp add: old replace.simps(2) [of a "as @ rest"])
qed

lemma replace_skip:
  "old \<noteq> [] \<Longrightarrow> \<not> prefix old (c # cs) \<Longrightarrow> replace (c # cs) old new = c # replace cs old new"
  by (simp add: replace.simps)


subsection \<open>Scanning and counting\<close>

lemma replace_cases [consumes 1, case_names Nil match skip]:
  assumes "old \<noteq> []"
    and "P []"
    and "\<And>rest. P rest \<Longrightarrow> P (old @ rest)"
    and "\<And>c cs. \<not> prefix old (c # cs) \<Longrightarrow> P cs \<Longrightarrow> P (c # cs)"
  shows "P s"
proof (induction s rule: length_induct)
  case (1 s)
  show ?case
  proof (cases s)
    case Nil
    with assms(2) show ?thesis by simp
  next
    case (Cons c cs)
    show ?thesis
    proof (cases "prefix old s")
      case True
      then obtain rest where s: "s = old @ rest"
        by (auto simp: prefix_def)
      with assms(1) have "length rest < length s" by simp
      with 1 have "P rest" by blast
      with s assms(3) show ?thesis by simp
    next
      case False
      from Cons 1 have "P cs" by simp
      with False Cons assms(4) show ?thesis by simp
    qed
  qed
qed

lemma prefix_appendD: "prefix p (a @ b) \<Longrightarrow> prefix p a \<or> prefix a p"
  by (auto simp: prefix_append)

lemma prefix_Cons_appendD: "prefix p (c # q @ b) \<Longrightarrow> prefix p (c # q) \<or> prefix (c # q) p"
  using prefix_appendD [of p "c # q" b] by simp

lemma no_start_tl: "no_start q x \<Longrightarrow> no_start (tl q) x"
  by (cases q) auto

lemma occurrences_append_no_start:
  "no_start a p \<Longrightarrow> occurrences p (a @ b) = occurrences p b"
  by (induction a) (auto dest: prefix_Cons_appendD)

lemma occurrences_self_append:
  assumes "p \<noteq> []" "no_start (tl p) p"
  shows "occurrences p (p @ b) = Suc (occurrences p b)"
proof -
  from assms(1) obtain a as where p: "p = a # as" by (cases p) auto
  with assms(2) have "occurrences p (as @ b) = occurrences p b"
    by (simp add: occurrences_append_no_start)
  moreover have "occurrences p ((a # as) @ b) = Suc (occurrences p (as @ b))"
    by (simp add: p)
  ultimately show ?thesis by (simp add: p)
qed

lemma replace_through:
  "old \<noteq> [] \<Longrightarrow> no_start q old \<Longrightarrow> replace (q @ rest) old new = q @ replace rest old new"
proof (induction q)
  case Nil
  then show ?case by simp
next
  case (Cons c q)
  from Cons.prems(2) have "\<not> prefix old (c # q @ rest)"
    by (auto dest: prefix_Cons_appendD)
  with Cons show ?case by (simp add: replace_skip)
qed

lemma prefix_replaceD:
  "old \<noteq> [] \<Longrightarrow> no_start q new \<Longrightarrow> prefix q (replace t old new) \<Longrightarrow> prefix q t"
proof (induction q arbitrary: t)
  case Nil
  then show ?case by simp
next
  case (Cons c q)
  show ?case
  proof (cases "prefix old t")
    case True
    then obtain rest where "t = old @ rest" by (auto simp: prefix_def)
    with Cons.prems have "prefix (c # q) (new @ replace rest old new)"
      by (simp add: replace_match)
    then have "prefix (c # q) new \<or> prefix new (c # q)" by (rule prefix_appendD)
    with Cons.prems(2) show ?thesis by simp
  next
    case False
    show ?thesis
    proof (cases t)
      case Nil
      with Cons.prems show ?thesis by (simp add: replace_Nil)
    next
      case (Cons d ds)
      with False Cons.prems Cons.IH [of ds] show ?thesis
        by (simp add: replace_skip)
    qed
  qed
qed

lemma prefix_replace_skipD:
  assumes "old \<noteq> []" "no_start (tl q) new" "\<not> prefix old t" "prefix q (replace t old new)"
  shows "prefix q t"
proof (cases t)
  case Nil
  with assms show ?thesis by (simp add: replace_Nil)
next
  case (Cons d ds)
  show ?thesis
  proof (cases q)
    case Nil
    then show ?thesis by simp
  next
    case q: (Cons c q')
    with assms Cons have "c = d" "prefix q' (replace ds old new)"
      by (simp_all add: replace_skip)
    moreover from assms(2) q have "no_start q' new" by simp
    ultimately show ?thesis
      using assms(1) Cons q by (auto dest: prefix_replaceD)
  qed
qed

lemma occurrences_replace_other:
  assumes "old \<noteq> []" "no_start old p" "no_start new p" "no_start p old" "no_start p new"
  shows "occurrences p (replace t old new) = occurrences p t"
  using assms(1)
proof (induction t rule: replace_cases)
  case Nil
  from assms(1) show ?case by (simp add: replace_Nil)
next
  case (match rest)
  with assms show ?case
    by (simp add: replace_match occurrences_append_no_start)
next
  case (skip c cs)
  have "prefix p (replace (c # cs) old new) \<longleftrightarrow> prefix p (c # cs)"
  proof
    assume "prefix p (replace (c # cs) old new)"
    with assms show "prefix p (c # cs)" by (blast dest: prefix_replaceD)
  next
    assume "prefix p (c # cs)"
    then obtain rest where "c # cs = p @ rest" by (auto simp: prefix_def)
    with assms show "prefix p (replace (c # cs) old new)"
      by (simp add: replace_through)
  qed
  with skip assms(1) show ?case by (simp add: replace_skip)
qed

lemma occurrences_old_replace:
  assumes "old \<noteq> []" "no_start new old" "no_start (tl old) new"
  shows "occurrences old (replace t old new) = 0"
  using assms(1)
proof (induction t rule: replace_cases)
  case Nil
  from assms(1) show ?case by (simp add: replace_Nil)
next
  case (match rest)
  with assms show ?case
    by (simp add: replace_match occurrences_append_no_start)
next
  case (skip c cs)
  with assms have "\<not> prefix old (replace (c # cs) old new)"
    by (blast dest: prefix_replace_skipD)
  with skip assms(1) show ?case by (simp add: replace_skip)
qed

lemma occurrences_new_replace:
  assumes "old \<noteq> []" "new \<noteq> []" "no_start (tl old) old" "no_start (tl new) new"
    "no_start old new" "no_start new old"
  shows "occurrences new (replace t old new) = occurrences new t + occurrences old t"
  using assms(1)
proof (induction t rule: replace_cases)
  case Nil
  from assms(1) show ?case by (simp add: replace_Nil)
next
  case (match rest)
  with assms show ?case
    by (simp add: replace_match occurrences_append_no_start occurrences_self_append)
next
  case (skip c cs)
  have "prefix new (replace (c # cs) old new) \<longleftrightarrow> prefix new (c # cs)"
  proof
    assume "prefix new (replace (c # cs) old new)"
    with assms skip(1) show "prefix new (c # cs)" by (blast dest: prefix_replace_skipD)
  next
    assume "prefix new (c # cs)"
    then obtain rest where "c # cs = new @ rest" by (auto simp: prefix_def)
    with assms show "prefix new (replace (c # cs) old new)"
      by (simp add: replace_through)
  qed
  with skip assms(1) show ?case by (simp add: replace_skip)
qed

lemma occurrences_Nil_pos: "0 < occurrences [] t"
  by (induction t) auto

lemma replace_absent: "occurrences old t = 0 \<Longrightarrow> replace t old new = t"
proof (induction t)
  case Nil
  then show ?case by (simp add: replace.simps split: if_splits)
next
  case (Cons c cs)
  then have "old \<noteq> []" "\<not> prefix old (c # cs)" "occurrences old cs = 0"
    by (auto split: if_splits)
  with Cons.IH show ?case by (simp add: replace_skip)
qed

lemma occurrences_0_iff: "occurrences p s = 0 \<longleftrightarrow> \<not> sublist p s"
  by (induction s) (auto simp: sublist_Cons_right)

subsection \<open>\<open>replace\<close> meets the description of the specification\<close>

lemma prefix_append_length:
  assumes "prefix p (a @ b)" "length p \<le> length a"
  shows "prefix p a"
proof -
  from assms(1) obtain zs where "a @ b = p @ zs"
    by (auto simp: prefix_def)
  then have "take (length p) (a @ b) = take (length p) (p @ zs)" by simp
  with assms(2) have "take (length p) a = p" by simp
  then show ?thesis by (metis take_is_prefix)
qed

lemma not_sublist_butlast: "old \<noteq> [] \<Longrightarrow> \<not> sublist old (butlast old)"
  using sublist_length_le [of old "butlast old"] by (cases old) auto

lemma replaced_all_skip:
  assumes "replaced_all old new cs t" "\<not> prefix old (c # cs)"
  shows "replaced_all old new (c # cs) (c # t)"
  using assms
proof (cases rule: replaced_all.cases)
  case absent
  with assms(2) have "\<not> sublist old (c # cs)"
    by (simp add: sublist_Cons_right)
  with absent show ?thesis by (simp add: replaced_all.absent)
next
  case (leftmost u rest t')
  have "\<not> prefix old (c # u @ butlast old)"
  proof
    assume "prefix old (c # u @ butlast old)"
    moreover have "prefix (c # u @ butlast old) (c # cs)"
    proof -
      have "prefix (butlast old) (old @ rest)"
        by (metis prefix_order.trans prefixeq_butlast prefixI)
      with leftmost(1) show ?thesis by simp
    qed
    ultimately have "prefix old (c # cs)" by (rule prefix_order.trans)
    with assms(2) show False by contradiction
  qed
  with leftmost(3) have "\<not> sublist old ((c # u) @ butlast old)"
    by (simp add: sublist_Cons_right)
  then have "replaced_all old new ((c # u) @ old @ rest) ((c # u) @ new @ t')"
    using leftmost(4) by (rule replaced_all.leftmost)
  with leftmost show ?thesis by simp
qed

lemma replaced_all_replace:
  assumes "old \<noteq> []"
  shows "replaced_all old new s (replace s old new)"
  using assms
proof (induction s rule: replace_cases)
  case Nil
  with assms show ?case by (simp add: replace_Nil replaced_all.absent)
next
  case (match rest)
  from assms have "\<not> sublist old ([] @ butlast old)"
    by (simp add: not_sublist_butlast)
  then have "replaced_all old new ([] @ old @ rest) ([] @ new @ replace rest old new)"
    using match by (rule replaced_all.leftmost)
  with assms show ?case by (simp add: replace_match)
next
  case (skip c cs)
  with assms show ?case by (simp add: replace_skip replaced_all_skip)
qed

lemma replace_leftmost:
  assumes "old \<noteq> []" "\<not> sublist old (u @ butlast old)"
  shows "replace (u @ old @ rest) old new = u @ new @ replace rest old new"
  using assms(2)
proof (induction u)
  case Nil
  from assms(1) show ?case by (simp add: replace_match)
next
  case (Cons c u)
  from Cons.prems have np: "\<not> prefix old (c # u @ butlast old)" and ns: "\<not> sublist old (u @ butlast old)"
    by (simp_all add: sublist_Cons_right)
  have "\<not> prefix old (c # u @ old @ rest)"
  proof
    assume "prefix old (c # u @ old @ rest)"
    moreover from assms(1) have "old = butlast old @ [last old]" by simp
    then have "old @ rest = butlast old @ last old # rest"
      by (metis append.assoc append_Cons append_Nil)
    ultimately have "prefix old ((c # u @ butlast old) @ last old # rest)"
      by simp
    moreover have "length old \<le> length (c # u @ butlast old)"
      by simp
    ultimately have "prefix old (c # u @ butlast old)" by (rule prefix_append_length)
    with np show False by contradiction
  qed
  with assms(1) Cons.IH [OF ns] show ?case by (simp add: replace_skip)
qed

lemma replaced_all_unique:
  assumes "old \<noteq> []" "replaced_all old new s t"
  shows "t = replace s old new"
  using assms(2)
proof (induction rule: replaced_all.induct)
  case (absent s)
  then show ?case by (simp add: replace_absent occurrences_0_iff)
next
  case (leftmost u rest t)
  with assms(1) show ?case by (simp add: replace_leftmost)
qed

subsection \<open>Newline translation\<close>

lemma universal_newlines_Cons:
  "c \<noteq> CR \<Longrightarrow> universal_newlines (c # cs) = c # universal_newlines cs"
  by (cases cs) simp_all

lemma CR_notin_universal_newlines: "CR \<notin> set (universal_newlines raw)"
  by (induction raw rule: universal_newlines.induct) (auto simp: CR_def LF_def)

lemma universal_newlines_id: "CR \<notin> set s \<Longrightarrow> universal_newlines s = s"
  by (induction s) (auto simp: universal_newlines_Cons)

lemma write_newlines_Posix: "write_newlines Posix s = s"
  by (induction s) auto

lemma read_back: "CR \<notin> set s \<Longrightarrow> universal_newlines (write_newlines pf s) = s"
proof (induction s)
  case Nil
  then show ?case by simp
next
  case (Cons c s)
  then show ?case
    by (cases pf) (auto simp: universal_newlines_Cons CR_def LF_def)
qed

lemma set_replace:
  assumes "old \<noteq> []"
  shows "set (replace s old new) \<subseteq> set s \<union> set new"
  using assms
proof (induction s rule: replace_cases)
  case Nil
  from assms show ?case by (simp add: replace_Nil)
next
  case (match rest)
  with assms show ?case by (auto simp: replace_match)
next
  case (skip c cs)
  with assms show ?case by (auto simp: replace_skip)
qed

subsection \<open>The literals as code points\<close>

lemma search1_codes:
  "search1 =
     [105, 109, 112, 111, 114, 116, 32, 123, 32, 115, 101, 97, 114, 99, 104, 67,
      111, 110, 102, 105, 103, 32, 125, 32, 102, 114, 111, 109, 32, 39, 46, 47, 115,
      101, 97, 114, 99, 104, 45, 99, 111, 110, 102, 105, 103, 46, 106, 115, 39, 59]"
  by (simp add: search1_def lit_def)

lemma replacement1_codes:
  "replacement1 =
     [105, 109, 112, 111, 114, 116, 32, 123, 32, 103, 101, 116, 83, 101, 97, 114,
      99, 104, 67, 111, 110, 102, 105, 103, 32, 125, 32, 102, 114, 111, 109, 32, 39,
      46, 47, 115, 101, 97, 114, 99, 104, 45, 99, 111, 110, 102, 105, 103, 46, 106,
      115, 39, 59]"
  by (simp add: replacement1_def lit_def)

lemma search2_codes:
  "search2 =
     [32, 32, 32, 32, 47, 47, 32, 66, 117, 105, 108, 100, 32, 116, 104, 101, 32, 65,
      117, 116, 111, 116, 114, 97, 100, 101, 114, 32, 115, 101, 97, 114, 99, 104,
      32, 85, 82, 76, 32, 119, 105, 116, 104, 32, 112, 97, 114, 97, 109, 101, 116,
      101, 114, 115, 10, 32, 32, 32, 32, 47, 47, 32, 66, 97, 115, 101, 100, 32, 111,
      110, 32, 97, 99, 116, 117, 97, 108, 32, 65, 117, 116, 111, 116, 114, 97, 100,
      101, 114, 32, 85, 82, 76, 32, 102, 111, 114, 109, 97, 116, 32, 102, 114, 111,
      109, 32, 117, 115, 101, 114, 39, 115, 32, 115, 101, 97, 114, 99, 104, 10, 32,
      32, 32, 32, 99, 111, 110, 115, 116, 32, 115, 101, 97, 114, 99, 104, 80, 97,
      114, 97, 109, 115, 32, 61, 32, 110, 101, 119, 32, 85, 82, 76, 83, 101, 97,
      114, 99, 104, 80, 97, 114, 97, 109, 115, 40, 115, 101, 97, 114, 99, 104, 67,
      111, 110, 102, 105, 103, 41, 59]"
  by (simp add: search2_def lit_def)

lemma replacement2_codes:
  "replacement2 =
     [32, 32, 32, 32, 47, 47, 32, 66, 117, 105, 108, 100, 32, 116, 104, 101, 32, 65,
      117, 116, 111, 116, 114, 97, 100, 101, 114, 32, 115, 101, 97, 114, 99, 104,
      32, 85, 82, 76, 32, 119, 105, 116, 104, 32, 112, 97, 114, 97, 109, 101, 116,
      101, 114, 115, 10, 32, 32, 32, 32, 47, 47, 32, 66, 97, 115, 101, 100, 32, 111,
      110, 32, 97, 99, 116, 117, 97, 108, 32, 65, 117, 116, 111, 116, 114, 97, 100,
      101, 114, 32, 85, 82, 76, 32, 102, 111, 114, 109, 97, 116, 32, 102, 114, 111,
      109, 32, 117, 115, 101, 114, 39, 115, 32, 115, 101, 97, 114, 99, 104, 10, 32,
      32, 32, 32, 99, 111, 110, 115, 116, 32, 115, 101, 97, 114, 99, 104, 67, 111,
      110, 102, 105, 103, 32, 61, 32, 103, 101, 116, 83, 101, 97, 114, 99, 104, 67,
      111, 110, 102, 105, 103, 40, 41, 59, 10, 32, 32, 32, 32, 99, 111, 110, 115,
      116, 32, 115, 101, 97, 114, 99, 104, 80, 97, 114, 97, 109, 115, 32, 61, 32,
      110, 101, 119, 32, 85, 82, 76, 83, 101, 97, 114, 99, 104, 80, 97, 114, 97,
      109, 115, 40, 115, 101, 97, 114, 99, 104, 67, 111, 110, 102, 105, 103, 41, 59]"
  by (simp add: replacement2_def lit_def)

lemma comment_lines_codes:
  "comment_lines =
     [32, 32, 32, 32, 47, 47, 32, 66, 117, 105, 108, 100, 32, 116, 104, 101, 32, 65,
      117, 116, 111, 116, 114, 97, 100, 101, 114, 32, 115, 101, 97, 114, 99, 104,
      32, 85, 82, 76, 32, 119, 105, 116, 104, 32, 112, 97, 114, 97, 109, 101, 116,
      101, 114, 115, 10, 32, 32, 32, 32, 47, 47, 32, 66, 97, 115, 101, 100, 32, 111,
      110, 32, 97, 99, 116, 117, 97, 108, 32, 65, 117, 116, 111, 116, 114, 97, 100,
      101, 114, 32, 85, 82, 76, 32, 102, 111, 114, 109, 97, 116, 32, 102, 114, 111,
      109, 32, 117, 115, 101, 114, 39, 115, 32, 115, 101, 97, 114, 99, 104, 10]"
  by (simp add: comment_lines_def lit_def)

lemma inserted_line_codes:
  "inserted_line =
     [32, 32, 32, 32, 99, 111, 110, 115, 116, 32, 115, 101, 97, 114, 99, 104, 67,
      111, 110, 102, 105, 103, 32, 61, 32, 103, 101, 116, 83, 101, 97, 114, 99, 104,
      67, 111, 110, 102, 105, 103, 40, 41, 59, 10]"
  by (simp add: inserted_line_def lit_def)

lemma usage_line_codes:
  "usage_line =
     [32, 32, 32, 32, 99, 111, 110, 115, 116, 32, 115, 101, 97, 114, 99, 104, 80,
      97, 114, 97, 109, 115, 32, 61, 32, 110, 101, 119, 32, 85, 82, 76, 83, 101, 97,
      114, 99, 104, 80, 97, 114, 97, 109, 115, 40, 115, 101, 97, 114, 99, 104, 67,
      111, 110, 102, 105, 103, 41, 59]"
  by (simp add: usage_line_def lit_def)

lemmas codes = search1_codes replacement1_codes search2_codes replacement2_codes

text \<open>
  No two of the four literals overlap: a copy of one cannot start inside a copy of
  another, and none of them can start inside itself behind its first character.
\<close>

lemma no_start_search1_replacement1: "no_start search1 replacement1"
  by (simp add: codes)

lemma no_start_search1_search2: "no_start search1 search2"
  by (simp add: codes)

lemma no_start_search1_replacement2: "no_start search1 replacement2"
  by (simp add: codes)

lemma no_start_replacement1_search1: "no_start replacement1 search1"
  by (simp add: codes)

lemma no_start_replacement1_search2: "no_start replacement1 search2"
  by (simp add: codes)

lemma no_start_replacement1_replacement2: "no_start replacement1 replacement2"
  by (simp add: codes)

lemma no_start_search2_search1: "no_start search2 search1"
  by (simp add: codes)

lemma no_start_search2_replacement1: "no_start search2 replacement1"
  by (simp add: codes)

lemma no_start_search2_replacement2: "no_start search2 replacement2"
  by (simp add: codes)

lemma no_start_replacement2_search1: "no_start replacement2 search1"
  by (simp add: codes)

lemma no_start_replacement2_replacement1: "no_start replacement2 replacement1"
  by (simp add: codes)

lemma no_start_replacement2_search2: "no_start replacement2 search2"
  by (simp add: codes)

lemma no_start_tl_search1: "no_start (tl search1) search1"
  by (simp add: codes)

lemma no_start_tl_replacement1: "no_start (tl replacement1) replacement1"
  by (simp add: codes)

lemma no_start_tl_search2: "no_start (tl search2) search2"
  by (simp add: codes)

lemma no_start_tl_replacement2: "no_start (tl replacement2) replacement2"
  by (simp add: codes)

lemmas no_starts =
  no_start_search1_replacement1
  no_start_search1_search2
  no_start_search1_replacement2
  no_start_replacement1_search1
  no_start_replacement1_search2
  no_start_replacement1_replacement2
  no_start_search2_search1
  no_start_search2_replacement1
  no_start_search2_replacement2
  no_start_replacement2_search1
  no_start_replacement2_replacement1
  no_start_replacement2_search2
  no_start_tl_search1
  no_start_tl_replacement1
  no_start_tl_search2
  no_start_tl_replacement2

lemma literals_nonempty:
  "search1 \<noteq> []" "replacement1 \<noteq> []" "search2 \<noteq> []" "replacement2 \<noteq> []"
  by (simp_all add: codes)

lemma search2_parts: "search2 = comment_lines @ usage_line"
  by (simp add: search2_codes comment_lines_codes usage_line_codes)

lemma replacement2_parts: "replacement2 = comment_lines @ inserted_line @ usage_line"
  by (simp add: replacement2_codes comment_lines_codes inserted_line_codes usage_line_codes)

lemma CR_notin_literals:
  "CR \<notin> set search1" "CR \<notin> set replacement1" "CR \<notin> set search2" "CR \<notin> set replacement2"
  by (simp_all add: codes CR_def)

lemma length_search1: "length search1 = 50"
  by (simp add: search1_def lit_def)

lemma length_replacement1: "length replacement1 = 53"
  by (simp add: replacement1_def lit_def)



subsection \<open>More on single steps\<close>

lemma occurrences_no_start: "p \<noteq> [] \<Longrightarrow> no_start a p \<Longrightarrow> occurrences p a = 0"
  using occurrences_append_no_start [of a p "[]"] by simp

lemma replace_no_start: "old \<noteq> [] \<Longrightarrow> no_start q old \<Longrightarrow> replace q old new = q"
  using replace_through [of old q "[]" new] by (simp add: replace_Nil)

lemma occurrences_self_pos: "0 < occurrences old (u @ old)"
proof (induction u)
  case Nil
  show ?case by (cases old) simp_all
next
  case (Cons c u)
  then show ?case by simp
qed

lemma replace_last:
  assumes "old \<noteq> []"
  shows "occurrences old (u @ old) = 1 \<Longrightarrow> replace (u @ old) old new = u @ new"
proof (induction u)
  case Nil
  from assms replace_match [of old "[]" new] show ?case by (simp add: replace_Nil)
next
  case (Cons c u)
  have pos: "0 < occurrences old (u @ old)" by (rule occurrences_self_pos)
  with Cons.prems have "\<not> prefix old (c # u @ old)" "occurrences old (u @ old) = 1"
    by (auto split: if_splits)
  with assms Cons.IH show ?case by (simp add: replace_skip)
qed

subsection \<open>The two steps together\<close>

lemma patch_steps: "patch content = replace (replace content search1 replacement1) search2 replacement2"
  by (simp add: patch_def)

lemma occurrences_search1_patch: "occurrences search1 (patch content) = 0"
proof -
  have "occurrences search1 (patch content)
      = occurrences search1 (replace content search1 replacement1)"
    unfolding patch_steps
    by (rule occurrences_replace_other) (simp_all add: literals_nonempty no_starts)
  also have "\<dots> = 0"
    by (rule occurrences_old_replace) (simp_all add: literals_nonempty no_starts no_start_tl)
  finally show ?thesis .
qed

lemma occurrences_search2_patch: "occurrences search2 (patch content) = 0"
  unfolding patch_steps
  by (rule occurrences_old_replace) (simp_all add: literals_nonempty no_starts no_start_tl)

lemma occurrences_replacement1_patch:
  "occurrences replacement1 (patch content)
     = occurrences replacement1 content + occurrences search1 content"
proof -
  have "occurrences replacement1 (patch content)
      = occurrences replacement1 (replace content search1 replacement1)"
    unfolding patch_steps
    by (rule occurrences_replace_other) (simp_all add: literals_nonempty no_starts)
  also have "\<dots> = occurrences replacement1 content + occurrences search1 content"
    by (rule occurrences_new_replace) (simp_all add: literals_nonempty no_starts)
  finally show ?thesis .
qed


lemma patch_absent:
  "occurrences search1 content = 0 \<Longrightarrow> occurrences search2 content = 0 \<Longrightarrow> patch content = content"
  by (simp add: patch_steps replace_absent)

lemma patch_patch: "patch (patch content) = patch content"
  by (rule patch_absent) (rule occurrences_search1_patch, rule occurrences_search2_patch)

lemma CR_notin_patch:
  assumes "CR \<notin> set content"
  shows "CR \<notin> set (patch content)"
proof -
  have "set (patch content) \<subseteq> set content \<union> set replacement1 \<union> set replacement2"
    unfolding patch_steps
    using set_replace [of search2 "replace content search1 replacement1" replacement2]
      set_replace [of search1 content replacement1]
    by (auto simp: literals_nonempty)
  with assms CR_notin_literals show ?thesis by blast
qed

subsection \<open>A run\<close>

lemma run_found:
  assumes "files w target = Some raw"
  shows "run pf w =
    (Inr (), w\<lparr>files := (files w)(target \<mapsto> write_newlines pf (patch (universal_newlines raw))),
                stdout := stdout w @ [message]\<rparr>)"
  using assms by (simp add: run_def read_text_def write_text_def print_def)

lemma run_missing:
  assumes "files w target = None"
  shows "run pf w = (Inl FileNotFoundError, w)"
  using assms by (simp add: run_def read_text_def)

lemma read_text_Inr:
  "read_text p w = Inr content \<longleftrightarrow> (\<exists>raw. files w p = Some raw \<and> content = universal_newlines raw)"
  by (auto simp: read_text_def split: option.splits)

lemma read_after_run:
  assumes "read_text target w = Inr content"
  shows "read_text target (snd (run pf w)) = Inr (patch content)"
proof -
  from assms obtain raw where raw: "files w target = Some raw" "content = universal_newlines raw"
    by (auto simp: read_text_Inr)
  then have "CR \<notin> set (patch content)"
    by (simp add: CR_notin_patch CR_notin_universal_newlines)
  then have "universal_newlines (write_newlines pf (patch content)) = patch content"
    by (rule read_back)
  with raw show ?thesis
    by (simp add: run_found read_text_def)
qed

lemma newline_round_trip_Posix:
  "CR \<notin> set raw \<Longrightarrow> write_newlines Posix (universal_newlines raw) = raw"
  by (simp add: write_newlines_Posix universal_newlines_id)

lemma universal_newlines_append:
  "CR \<notin> set a \<Longrightarrow> universal_newlines (a @ b) = a @ universal_newlines b"
  by (induction a) (auto simp: universal_newlines_Cons)

lemma run_files:
  "files (snd (run pf w)) target
     = map_option (\<lambda>raw. write_newlines pf (patch (universal_newlines raw))) (files w target)"
  by (cases "files w target") (simp_all add: run_missing run_found)

subsection \<open>Runs on particular files\<close>

lemma not_prefix_LF_search2:
  "\<not> prefix search1 (LF # search2)" "\<not> prefix search2 (LF # search2)"
  by (simp_all add: codes LF_def)

lemma CR_neq_LF: "CR \<noteq> LF"
  by (simp add: CR_def LF_def)

lemma patch_import_usage: "patch (search1 @ LF # search2) = replacement1 @ LF # replacement2"
proof -
  have "replace (search1 @ LF # search2) search1 replacement1 = replacement1 @ LF # search2"
    by (simp add: replace_match replace_skip replace_no_start not_prefix_LF_search2
        literals_nonempty no_starts)
  moreover have "replace (replacement1 @ LF # search2) search2 replacement2
      = replacement1 @ LF # replacement2"
    using replace_match [of search2 "[]" replacement2]
    by (simp add: replace_through replace_skip replace_Nil not_prefix_LF_search2
        literals_nonempty no_starts)
  ultimately show ?thesis by (simp add: patch_steps)
qed

lemma patch_import_twice:
  "patch (search1 @ search1 @ LF # search2) = replacement1 @ replacement1 @ LF # replacement2"
proof -
  have "replace (search1 @ search1 @ LF # search2) search1 replacement1
      = replacement1 @ replacement1 @ LF # search2"
    by (simp add: replace_match replace_skip replace_no_start not_prefix_LF_search2
        literals_nonempty no_starts)
  moreover have "replace (replacement1 @ replacement1 @ LF # search2) search2 replacement2
      = replacement1 @ replacement1 @ LF # replacement2"
    using replace_match [of search2 "[]" replacement2]
    by (simp add: replace_through replace_skip replace_Nil not_prefix_LF_search2
        literals_nonempty no_starts)
  ultimately show ?thesis by (simp add: patch_steps)
qed

lemma patch_dots:
  "patch (search1 @ lit ''\<newline>...\<newline>'' @ usage_line)
     = replacement1 @ lit ''\<newline>...\<newline>'' @ usage_line"
proof -
  let ?rest = "lit ''\<newline>...\<newline>'' @ usage_line"
  have "occurrences search1 ?rest = 0"
    by (simp add: search1_codes usage_line_codes lit_def)
  then have s1: "replace (search1 @ ?rest) search1 replacement1 = replacement1 @ ?rest"
    by (simp add: replace_match replace_absent literals_nonempty)
  have "occurrences search2 ?rest = 0"
    by (simp add: search2_codes usage_line_codes lit_def)
  then have "replace (replacement1 @ ?rest) search2 replacement2 = replacement1 @ ?rest"
    by (simp add: replace_through replace_absent literals_nonempty no_starts)
  with s1 show ?thesis
    by (simp add: patch_steps)
qed

lemma scenario_dots:
  "files (snd (run Posix
      \<lparr>files = [target \<mapsto> search1 @ lit ''\<newline>...\<newline>'' @ usage_line], stdout = []\<rparr>)) target
     = Some (replacement1 @ lit ''\<newline>...\<newline>'' @ usage_line)"
proof -
  let ?rest = "lit ''\<newline>...\<newline>'' @ usage_line"
  have "CR \<notin> set ?rest"
    by (simp add: usage_line_codes lit_def CR_def)
  then have "CR \<notin> set (search1 @ ?rest)"
    using CR_notin_literals(1) by simp
  then have u: "universal_newlines (search1 @ ?rest) = search1 @ ?rest"
    by (rule universal_newlines_id)
  show ?thesis
    by (simp add: run_files u patch_dots write_newlines_Posix
        del: universal_newlines.simps append_assoc)
qed

lemma scenario_import_twice:
  "files (snd (run Posix
      \<lparr>files = [target \<mapsto> search1 @ (search1 @ [LF]) @ comment_lines @ usage_line],
       stdout = []\<rparr>)) target
     = Some (replacement1 @ (replacement1 @ [LF]) @ comment_lines @ inserted_line @ usage_line)"
proof -
  have eq: "search1 @ (search1 @ [LF]) @ comment_lines @ usage_line
      = search1 @ search1 @ LF # search2"
    "replacement1 @ (replacement1 @ [LF]) @ comment_lines @ inserted_line @ usage_line
      = replacement1 @ replacement1 @ LF # replacement2"
    by (simp_all add: search2_parts replacement2_parts)
  have "CR \<notin> set (search1 @ search1 @ LF # search2)"
    using CR_neq_LF by (simp add: CR_notin_literals)
  then have u: "universal_newlines (search1 @ search1 @ LF # search2)
      = search1 @ search1 @ LF # search2"
    by (rule universal_newlines_id)
  show ?thesis
    unfolding eq
    by (simp add: run_files u patch_import_twice write_newlines_Posix
        del: universal_newlines.simps)
qed

lemma scenario_crlf:
  "files (snd (run Posix
      \<lparr>files = [target \<mapsto> search1 @ [CR, LF] @ comment_lines @ usage_line],
       stdout = []\<rparr>)) target
     = Some (replacement1 @ [LF] @ comment_lines @ inserted_line @ usage_line)"
proof -
  have eq: "search1 @ [CR, LF] @ comment_lines @ usage_line = search1 @ CR # LF # search2"
    "replacement1 @ [LF] @ comment_lines @ inserted_line @ usage_line
      = replacement1 @ LF # replacement2"
    by (simp_all add: search2_parts replacement2_parts)
  have "universal_newlines search2 = search2"
    by (rule universal_newlines_id) (rule CR_notin_literals)
  then have "universal_newlines (CR # LF # search2) = LF # search2"
    by simp
  then have u: "universal_newlines (search1 @ CR # LF # search2) = search1 @ LF # search2"
    by (simp add: universal_newlines_append CR_notin_literals del: universal_newlines.simps)
  show ?thesis
    unfolding eq
    by (simp add: run_files u patch_import_usage write_newlines_Posix
        del: universal_newlines.simps)
qed

lemma replacement1_neq_search1: "replacement1 \<noteq> search1"
  using length_search1 length_replacement1 by auto

section \<open>The claims\<close>


text \<open>
  C1. For every text, the transformation of the script is the first replacement step
  (the import line) followed by the second (the usage block). Each step is the
  replacement of every non-overlapping copy of its search literal, taken from the left, as
  \<open>replaced_all\<close> describes it, and \<open>replace\<close> gives the only result that fits the
  description; a step whose search literal is absent leaves the text as it is; the second
  step is applied to the result of the first whether or not the first found a match.
\<close>

theorem patch_is_two_steps:
  "patch content = replace (replace content search1 replacement1) search2 replacement2
   \<and> replaced_all search1 replacement1 content (replace content search1 replacement1)
   \<and> replaced_all search2 replacement2 (replace content search1 replacement1) (patch content)
   \<and> (\<forall>t. replaced_all search1 replacement1 content t \<longrightarrow> t = replace content search1 replacement1)
   \<and> (\<forall>t. replaced_all search2 replacement2 (replace content search1 replacement1) t
          \<longrightarrow> t = patch content)
   \<and> (\<not> sublist search1 content \<longrightarrow> replace content search1 replacement1 = content)
   \<and> (\<not> sublist search2 (replace content search1 replacement1)
          \<longrightarrow> patch content = replace content search1 replacement1)"
proof -
  let ?t = "replace content search1 replacement1"
  have steps: "patch content = replace ?t search2 replacement2"
    by (rule patch_steps)
  have r1: "replaced_all search1 replacement1 content ?t"
    by (rule replaced_all_replace) (simp add: literals_nonempty)
  have r2: "replaced_all search2 replacement2 ?t (patch content)"
    unfolding steps by (rule replaced_all_replace) (simp add: literals_nonempty)
  have u1: "\<forall>t. replaced_all search1 replacement1 content t \<longrightarrow> t = ?t"
    by (auto dest: replaced_all_unique [OF literals_nonempty(1)])
  have u2: "\<forall>t. replaced_all search2 replacement2 ?t t \<longrightarrow> t = patch content"
    unfolding steps by (auto dest: replaced_all_unique [OF literals_nonempty(3)])
  have n1: "\<not> sublist search1 content \<longrightarrow> ?t = content"
    by (simp add: replace_absent occurrences_0_iff)
  have n2: "\<not> sublist search2 ?t \<longrightarrow> patch content = ?t"
    unfolding steps by (simp add: replace_absent occurrences_0_iff)
  from steps r1 r2 u1 u2 n1 n2 show ?thesis by blast
qed

theorem patch_is_two_steps_witness:
  "patch (search1 @ search2) = replacement1 @ replacement2
   \<and> \<not> sublist search1 [LF] \<and> \<not> sublist search2 [LF] \<and> patch [LF] = [LF]"
proof -
  have a: "\<not> sublist search1 [LF]" "\<not> sublist search2 [LF]"
    by (simp_all add: occurrences_0_iff [symmetric] codes LF_def)
  have e: "replace [LF] search1 replacement1 = [LF]"
    using a(1) patch_is_two_steps [of "[LF]"] by blast
  have "\<not> sublist search2 (replace [LF] search1 replacement1)
      \<longrightarrow> patch [LF] = replace [LF] search1 replacement1"
    using patch_is_two_steps [of "[LF]"] by blast
  with e a(2) have b: "patch [LF] = [LF]"
    by simp
  have "replace (search1 @ search2) search1 replacement1 = replacement1 @ search2"
    by (simp add: replace_match replace_no_start literals_nonempty no_starts)
  then have "patch (search1 @ search2) = replace (replacement1 @ search2) search2 replacement2"
    using patch_is_two_steps [of "search1 @ search2"] by simp
  also have "\<dots> = replacement1 @ replacement2"
    using replace_match [of search2 "[]" replacement2]
    by (simp add: replace_through replace_Nil literals_nonempty no_starts)
  finally show ?thesis using a b by simp
qed

text \<open>
  C2, as amended. If the text read from the file contains the first search literal
  exactly once and does not already contain the first replacement literal, then after the
  run the file reads as a text that contains the first replacement literal exactly once
  and the first search literal nowhere.
\<close>

theorem import_literal_once:
  assumes "read_text target w = Inr content"
    and "occurrences search1 content = 1"
    and "occurrences replacement1 content = 0"
  shows "read_text target (snd (run pf w)) = Inr (patch content)
    \<and> occurrences replacement1 (patch content) = 1
    \<and> occurrences search1 (patch content) = 0"
  using assms
  by (simp add: read_after_run occurrences_replacement1_patch occurrences_search1_patch)

theorem import_literal_once_witness:
  "read_text target (snd (run Posix \<lparr>files = [target \<mapsto> search1], stdout = []\<rparr>))
     = Inr (patch search1)
   \<and> occurrences replacement1 (patch search1) = 1
   \<and> occurrences search1 (patch search1) = 0"
proof -
  have "universal_newlines search1 = search1"
    by (rule universal_newlines_id) (simp add: CR_notin_literals)
  then have "read_text target \<lparr>files = [target \<mapsto> search1], stdout = []\<rparr> = Inr search1"
    by (simp add: read_text_def)
  moreover have "occurrences search1 search1 = 1"
    using occurrences_self_append [of search1 "[]"] by (simp add: literals_nonempty no_starts)
  moreover have "occurrences replacement1 search1 = 0"
    by (simp add: occurrences_no_start literals_nonempty no_starts)
  ultimately show ?thesis
    by (rule import_literal_once)
qed

text \<open>
  Without the second condition the statement fails: a file that holds the old import
  line once and the new import line once ends up with the new import line twice.
\<close>

theorem import_literal_once_counterexample:
  "occurrences search1 (search1 @ replacement1) = 1
   \<and> read_text target \<lparr>files = [target \<mapsto> search1 @ replacement1], stdout = []\<rparr>
       = Inr (search1 @ replacement1)
   \<and> files (snd (run Posix \<lparr>files = [target \<mapsto> search1 @ replacement1], stdout = []\<rparr>)) target
       = Some (replacement1 @ replacement1)
   \<and> occurrences replacement1 (replacement1 @ replacement1) = 2"
proof -
  have cr: "CR \<notin> set (search1 @ replacement1)"
    by (simp add: CR_notin_literals)
  have o1: "occurrences search1 (search1 @ replacement1) = 1"
    by (simp add: occurrences_self_append occurrences_no_start literals_nonempty no_starts)
  have o2: "occurrences replacement1 (replacement1 @ replacement1) = 2"
    using occurrences_self_append [of replacement1 "[]"]
    by (simp add: occurrences_self_append literals_nonempty no_starts)
  have "replace (search1 @ replacement1) search1 replacement1 = replacement1 @ replacement1"
    by (simp add: replace_match replace_no_start literals_nonempty no_starts)
  moreover have "replace (replacement1 @ replacement1) search2 replacement2
      = replacement1 @ replacement1"
    by (simp add: replace_through replace_no_start literals_nonempty no_starts)
  ultimately have p: "patch (search1 @ replacement1) = replacement1 @ replacement1"
    by (simp add: patch_steps)
  from cr have u: "universal_newlines (search1 @ replacement1) = search1 @ replacement1"
    by (rule universal_newlines_id)
  from o1 o2 p u show ?thesis
    by (simp add: run_found read_text_def write_newlines_Posix)
qed




text \<open>
  C4, as amended. If the text read from the file contains neither search literal, both
  replacement steps leave it as it is, the run succeeds, the success message is printed
  and the file is rewritten with the text that was read, its line ends translated to the
  line separator of the platform. The file is the same as before the run provided that
  this translation gives back its content, as it does for a file without carriage
  returns on a platform whose line separator is \<open>\n\<close> (\<open>newline_round_trip_Posix\<close>).
\<close>

theorem no_literal_no_change:
  assumes "files w target = Some raw"
    and "occurrences search1 (universal_newlines raw) = 0"
    and "occurrences search2 (universal_newlines raw) = 0"
  shows "replace (universal_newlines raw) search1 replacement1 = universal_newlines raw
    \<and> replace (universal_newlines raw) search2 replacement2 = universal_newlines raw
    \<and> patch (universal_newlines raw) = universal_newlines raw
    \<and> fst (run pf w) = Inr ()
    \<and> stdout (snd (run pf w)) = stdout w @ [message]
    \<and> files (snd (run pf w)) = (files w)(target \<mapsto> write_newlines pf (universal_newlines raw))
    \<and> (write_newlines pf (universal_newlines raw) = raw
          \<longrightarrow> files (snd (run pf w)) = files w
            \<and> run pf w = (Inr (), w\<lparr>stdout := stdout w @ [message]\<rparr>))"
proof -
  from assms(2,3) have p: "patch (universal_newlines raw) = universal_newlines raw"
    by (rule patch_absent)
  from assms(1) have r: "run pf w =
      (Inr (), w\<lparr>files := (files w)(target \<mapsto> write_newlines pf (universal_newlines raw)),
                  stdout := stdout w @ [message]\<rparr>)"
    by (simp add: run_found p)
  have "write_newlines pf (universal_newlines raw) = raw
      \<longrightarrow> files (snd (run pf w)) = files w
        \<and> run pf w = (Inr (), w\<lparr>stdout := stdout w @ [message]\<rparr>)"
  proof
    assume "write_newlines pf (universal_newlines raw) = raw"
    with assms(1) have "(files w)(target \<mapsto> write_newlines pf (universal_newlines raw)) = files w"
      by (simp add: map_upd_triv)
    with r show "files (snd (run pf w)) = files w
        \<and> run pf w = (Inr (), w\<lparr>stdout := stdout w @ [message]\<rparr>)"
      by simp
  qed
  moreover from r have "fst (run pf w) = Inr ()"
    "stdout (snd (run pf w)) = stdout w @ [message]"
    "files (snd (run pf w)) = (files w)(target \<mapsto> write_newlines pf (universal_newlines raw))"
    by simp_all
  ultimately show ?thesis
    using assms(2,3) p by (simp add: replace_absent)
qed

theorem no_literal_no_change_witness:
  "run Posix \<lparr>files = [target \<mapsto> [97, LF, 98]], stdout = []\<rparr>
     = (Inr (), \<lparr>files = [target \<mapsto> [97, LF, 98]], stdout = [message]\<rparr>)
   \<and> stdout (snd (run Posix \<lparr>files = [target \<mapsto> [97, CR, LF, 98]], stdout = []\<rparr>)) = [message]"
proof -
  let ?w = "\<lparr>files = [target \<mapsto> [97, LF, 98]], stdout = []\<rparr>"
  let ?v = "\<lparr>files = [target \<mapsto> [97, CR, LF, 98]], stdout = []\<rparr>"
  have u: "universal_newlines [97, LF, 98] = [97, LF, 98]"
    "universal_newlines [97, CR, LF, 98] = [97, LF, 98]"
    by (simp_all add: LF_def CR_def)
  have o: "occurrences search1 [97, LF, 98] = 0" "occurrences search2 [97, LF, 98] = 0"
    by (simp_all add: codes LF_def)
  have w: "write_newlines Posix (universal_newlines [97, LF, 98]) = [97, LF, 98]"
    unfolding u by (rule write_newlines_Posix)
  have "files ?w target = Some [97, LF, 98]"
    by simp
  moreover have "occurrences search1 (universal_newlines [97, LF, 98]) = 0"
    "occurrences search2 (universal_newlines [97, LF, 98]) = 0"
    unfolding u by (rule o)+
  ultimately have a: "run Posix ?w = (Inr (), ?w\<lparr>stdout := stdout ?w @ [message]\<rparr>)"
    using no_literal_no_change [of ?w "[97, LF, 98]" Posix] w by blast
  have "files ?v target = Some [97, CR, LF, 98]"
    by simp
  moreover have "occurrences search1 (universal_newlines [97, CR, LF, 98]) = 0"
    "occurrences search2 (universal_newlines [97, CR, LF, 98]) = 0"
    unfolding u by (rule o)+
  ultimately have b: "stdout (snd (run Posix ?v)) = stdout ?v @ [message]"
    using no_literal_no_change [of ?v "[97, CR, LF, 98]" Posix] by blast
  from a b show ?thesis by simp
qed

text \<open>
  Without the condition on newlines the statement fails. On a platform whose line
  separator is \<open>\n\<close>, the file \<open>a\r\nb\<close> holds neither literal and is rewritten as
  \<open>a\nb\<close>; where the separator is \<open>\r\n\<close>, the file \<open>a\nb\<close> is rewritten as \<open>a\r\nb\<close>.
\<close>

theorem no_literal_no_change_counterexample:
  "occurrences search1 [97, CR, LF, 98] = 0 \<and> occurrences search2 [97, CR, LF, 98] = 0
   \<and> files (snd (run Posix \<lparr>files = [target \<mapsto> [97, CR, LF, 98]], stdout = []\<rparr>)) target
       = Some [97, LF, 98]
   \<and> [97, LF, 98] \<noteq> [97, CR, LF, 98]
   \<and> occurrences search1 [97, LF, 98] = 0 \<and> occurrences search2 [97, LF, 98] = 0
   \<and> files (snd (run Windows \<lparr>files = [target \<mapsto> [97, LF, 98]], stdout = []\<rparr>)) target
       = Some [97, CR, LF, 98]"
proof -
  have o: "occurrences search1 [97, CR, LF, 98] = 0" "occurrences search2 [97, CR, LF, 98] = 0"
    "occurrences search1 [97, LF, 98] = 0" "occurrences search2 [97, LF, 98] = 0"
    by (simp_all add: codes LF_def CR_def)
  then have p: "patch [97, LF, 98] = [97, LF, 98]"
    by (simp add: patch_absent)
  have u: "universal_newlines [97, CR, LF, 98] = [97, LF, 98]"
    "universal_newlines [97, LF, 98] = [97, LF, 98]"
    by (simp_all add: LF_def CR_def)
  have n: "[97, LF, 98] \<noteq> [97, CR, LF, 98]"
    by (simp add: LF_def CR_def)
  have r1: "files (snd (run Posix \<lparr>files = [target \<mapsto> [97, CR, LF, 98]], stdout = []\<rparr>)) target
      = Some [97, LF, 98]"
    by (simp add: run_found u p write_newlines_Posix del: universal_newlines.simps)
  have "write_newlines Windows [97, LF, 98] = [97, CR, LF, 98]"
    by (simp add: LF_def)
  then have r2: "files (snd (run Windows \<lparr>files = [target \<mapsto> [97, LF, 98]], stdout = []\<rparr>)) target
      = Some [97, CR, LF, 98]"
    by (simp add: run_found u p del: universal_newlines.simps write_newlines.simps)
  from o r1 r2 n show ?thesis
    by blast
qed

text \<open>
  C5. If the text read from the file contains both search literals, then the second of
  two successive runs reads the text the first run wrote, both of its replacement steps
  leave that text as it is, and the files after the second run are the files after the
  first.
\<close>

theorem second_run_changes_nothing:
  assumes "read_text target w = Inr content"
    and "0 < occurrences search1 content"
    and "0 < occurrences search2 content"
  shows "read_text target (snd (run pf w)) = Inr (patch content)
    \<and> replace (patch content) search1 replacement1 = patch content
    \<and> replace (patch content) search2 replacement2 = patch content
    \<and> files (snd (run pf (snd (run pf w)))) = files (snd (run pf w))"
proof -
  let ?w1 = "snd (run pf w)"
  from assms(1) obtain raw where raw: "files w target = Some raw"
    by (auto simp: read_text_Inr)
  from assms(1) have r1: "read_text target ?w1 = Inr (patch content)"
    by (rule read_after_run)
  then obtain raw1 where raw1: "files ?w1 target = Some raw1"
    "patch content = universal_newlines raw1"
    by (auto simp: read_text_Inr)
  from raw assms(1) have w1: "raw1 = write_newlines pf (patch content)"
    using raw1(1) by (simp add: run_found read_text_def)
  have "files (snd (run pf ?w1))
      = (files ?w1)(target \<mapsto> write_newlines pf (patch (universal_newlines raw1)))"
    using raw1(1) by (simp add: run_found)
  also have "\<dots> = (files ?w1)(target \<mapsto> raw1)"
    using raw1(2) w1 by (simp add: patch_patch)
  also have "\<dots> = files ?w1"
    using raw1(1) by (simp add: map_upd_triv)
  finally have "files (snd (run pf ?w1)) = files ?w1" .
  with r1 show ?thesis
    by (simp add: replace_absent occurrences_search1_patch occurrences_search2_patch)
qed

theorem second_run_changes_nothing_witness:
  "files (snd (run Posix (snd (run Posix \<lparr>files = [target \<mapsto> search1 @ search2], stdout = []\<rparr>))))
     = files (snd (run Posix \<lparr>files = [target \<mapsto> search1 @ search2], stdout = []\<rparr>))"
proof -
  let ?w = "\<lparr>files = [target \<mapsto> search1 @ search2], stdout = []\<rparr>"
  have "universal_newlines (search1 @ search2) = search1 @ search2"
    by (rule universal_newlines_id) (simp add: CR_notin_literals)
  then have "read_text target ?w = Inr (search1 @ search2)"
    by (simp add: read_text_def)
  moreover have "0 < occurrences search1 (search1 @ search2)"
    by (simp add: occurrences_self_append literals_nonempty no_starts)
  moreover have "0 < occurrences search2 (search1 @ search2)"
    by (rule occurrences_self_pos)
  ultimately show ?thesis
    using second_run_changes_nothing [of ?w "search1 @ search2" Posix] by blast
qed

text \<open>
  C6, as amended. Let the text read from the file (line ends as \<open>\n\<close>) be the old import
  line, followed by any text \<open>mid\<close>, followed by the two comment lines and the line that
  builds the \<open>URLSearchParams\<close>, with each search literal occurring in it exactly once.
  Then the text written is the new import line, \<open>mid\<close>, the two comment lines, the added
  line \<open>const searchConfig = getSearchConfig();\<close> and the \<open>URLSearchParams\<close> line, and
  the file holds this text with its line ends translated to the line separator of the
  platform. On a platform whose line separator is \<open>\n\<close>, for a file without carriage
  returns, the file before the run is that text and the file after the run is the
  patched text: the import line replaced, the line added just before the
  \<open>URLSearchParams\<close> line, the rest of the file unchanged.
\<close>

theorem scenario_patched:
  assumes "files w target = Some raw"
    and "universal_newlines raw = search1 @ mid @ comment_lines @ usage_line"
    and "occurrences search1 (universal_newlines raw) = 1"
    and "occurrences search2 (universal_newlines raw) = 1"
  shows "patch (universal_newlines raw)
      = replacement1 @ mid @ comment_lines @ inserted_line @ usage_line
    \<and> files (snd (run pf w)) = (files w)(target \<mapsto>
        write_newlines pf (replacement1 @ mid @ comment_lines @ inserted_line @ usage_line))
    \<and> read_text target (snd (run pf w))
      = Inr (replacement1 @ mid @ comment_lines @ inserted_line @ usage_line)
    \<and> (pf = Posix \<and> CR \<notin> set raw \<longrightarrow>
          raw = search1 @ mid @ comment_lines @ usage_line
        \<and> files (snd (run pf w)) = (files w)(target \<mapsto>
            replacement1 @ mid @ comment_lines @ inserted_line @ usage_line))"
proof -
  let ?content = "universal_newlines raw"
  let ?new = "replacement1 @ mid @ comment_lines @ inserted_line @ usage_line"
  have c: "?content = search1 @ mid @ search2"
    by (simp add: assms(2) search2_parts)
  have "occurrences search1 ?content = Suc (occurrences search1 (mid @ search2))"
    unfolding c by (rule occurrences_self_append) (simp_all add: literals_nonempty no_starts)
  with assms(3) have "occurrences search1 (mid @ search2) = 0"
    by simp
  then have s1: "replace ?content search1 replacement1 = replacement1 @ mid @ search2"
    unfolding c by (simp add: replace_match replace_absent literals_nonempty)
  have "occurrences search2 ?content = occurrences search2 (mid @ search2)"
    unfolding c by (rule occurrences_append_no_start) (rule no_start_search1_search2)
  with assms(4) have "replace (mid @ search2) search2 replacement2 = mid @ replacement2"
    by (simp add: replace_last literals_nonempty)
  then have "replace (replacement1 @ mid @ search2) search2 replacement2
      = replacement1 @ mid @ replacement2"
    by (simp add: replace_through literals_nonempty no_starts)
  with s1 have "patch ?content = replacement1 @ mid @ replacement2"
    by (simp add: patch_steps)
  then have p: "patch ?content = ?new"
    by (simp add: replacement2_parts)
  from assms(1) have f: "files (snd (run pf w)) = (files w)(target \<mapsto> write_newlines pf ?new)"
    by (simp add: run_found p)
  from assms(1) have "read_text target w = Inr ?content"
    by (simp add: read_text_def)
  then have r: "read_text target (snd (run pf w)) = Inr ?new"
    using read_after_run [of w ?content pf] p by simp
  have "pf = Posix \<and> CR \<notin> set raw \<longrightarrow>
      raw = search1 @ mid @ comment_lines @ usage_line
      \<and> files (snd (run pf w)) = (files w)(target \<mapsto> ?new)"
  proof
    assume a: "pf = Posix \<and> CR \<notin> set raw"
    then have "universal_newlines raw = raw"
      by (simp add: universal_newlines_id)
    with assms(2) have "raw = search1 @ mid @ comment_lines @ usage_line"
      by simp
    moreover from a f have "files (snd (run pf w)) = (files w)(target \<mapsto> ?new)"
      by (simp add: write_newlines_Posix)
    ultimately show "raw = search1 @ mid @ comment_lines @ usage_line
        \<and> files (snd (run pf w)) = (files w)(target \<mapsto> ?new)"
      by blast
  qed
  with p f r show ?thesis by blast
qed

theorem scenario_patched_witness:
  "files (snd (run Posix
      \<lparr>files = [target \<mapsto> search1 @ [LF] @ comment_lines @ usage_line], stdout = []\<rparr>))
     = [target \<mapsto> replacement1 @ [LF] @ comment_lines @ inserted_line @ usage_line]"
proof -
  let ?c = "search1 @ [LF] @ comment_lines @ usage_line"
  let ?w = "\<lparr>files = [target \<mapsto> ?c], stdout = []\<rparr>"
  have eq: "?c = search1 @ LF # search2"
    by (simp add: search2_parts)
  have cr: "CR \<notin> set (search1 @ LF # search2)"
    using CR_neq_LF by (simp add: CR_notin_literals)
  then have u: "universal_newlines (search1 @ LF # search2) = search1 @ LF # search2"
    by (rule universal_newlines_id)
  have "occurrences search1 (search1 @ LF # search2) = 1"
    using not_prefix_LF_search2
    by (simp add: occurrences_self_append occurrences_no_start literals_nonempty no_starts)
  then have o1: "occurrences search1 (universal_newlines ?c) = 1"
    unfolding eq u .
  have "occurrences search2 (search1 @ LF # search2) = 1"
    using not_prefix_LF_search2 occurrences_self_append [of search2 "[]"]
    by (simp add: occurrences_append_no_start literals_nonempty no_starts)
  then have o2: "occurrences search2 (universal_newlines ?c) = 1"
    unfolding eq u .
  have f: "files ?w target = Some ?c"
    by simp
  have u': "universal_newlines ?c = search1 @ [LF] @ comment_lines @ usage_line"
    using u unfolding eq [symmetric] .
  have cr': "CR \<notin> set ?c"
    using cr unfolding eq [symmetric] .
  from scenario_patched [OF f u' o1 o2, of Posix] cr'
  have "files (snd (run Posix ?w)) = (files ?w)(target \<mapsto>
      replacement1 @ [LF] @ comment_lines @ inserted_line @ usage_line)"
    by blast
  then show ?thesis by simp
qed

text \<open>
  Each of the three conditions is needed. With arbitrary text in front of the
  \<open>URLSearchParams\<close> line (the content of the scenario taken literally: the import line, a
  line of three dots, the \<open>URLSearchParams\<close> line) the import line is replaced and no
  line is added, because the second search literal begins with the two comment lines.
  With a second copy of the old import line in the text between, that copy is replaced
  as well, so the rest of the file is not unchanged. With \<open>\r\n\<close> behind the import line,
  on a platform whose line separator is \<open>\n\<close>, the file is written with \<open>\n\<close> there.
\<close>

theorem scenario_as_stated_counterexample:
  "files (snd (run Posix
      \<lparr>files = [target \<mapsto> search1 @ lit ''\<newline>...\<newline>'' @ usage_line], stdout = []\<rparr>)) target
     = Some (replacement1 @ lit ''\<newline>...\<newline>'' @ usage_line)
   \<and> occurrences (lit ''const searchConfig = getSearchConfig();'')
        (replacement1 @ lit ''\<newline>...\<newline>'' @ usage_line) = 0
   \<and> files (snd (run Posix
        \<lparr>files = [target \<mapsto> search1 @ (search1 @ [LF]) @ comment_lines @ usage_line],
         stdout = []\<rparr>)) target
     = Some (replacement1 @ (replacement1 @ [LF]) @ comment_lines @ inserted_line @ usage_line)
   \<and> replacement1 @ [LF] \<noteq> search1 @ [LF]
   \<and> files (snd (run Posix
        \<lparr>files = [target \<mapsto> search1 @ [CR, LF] @ comment_lines @ usage_line],
         stdout = []\<rparr>)) target
     = Some (replacement1 @ [LF] @ comment_lines @ inserted_line @ usage_line)
   \<and> [LF] \<noteq> [CR, LF]"
proof -
  have o: "occurrences (lit ''const searchConfig = getSearchConfig();'')
      (replacement1 @ lit ''\<newline>...\<newline>'' @ usage_line) = 0"
    by (simp add: replacement1_codes usage_line_codes lit_def)
  have n: "replacement1 @ [LF] \<noteq> search1 @ [LF]"
    by (simp add: replacement1_neq_search1)
  have "[LF] \<noteq> [CR, LF]"
    by simp
  with o n scenario_dots scenario_import_twice scenario_crlf show ?thesis
    by blast
qed

text \<open>
  C7. If the target file does not exist, the run ends in the read step with
  \<open>FileNotFoundError\<close>, which is not caught: the exit status is not zero, nothing is
  printed, no file is changed, and there is still no file at the target path.
\<close>

theorem missing_file_fails:
  assumes "files w target = None"
  shows "fst (run pf w) = Inl FileNotFoundError
    \<and> exit_code (fst (run pf w)) \<noteq> 0
    \<and> stdout (snd (run pf w)) = stdout w
    \<and> files (snd (run pf w)) = files w
    \<and> files (snd (run pf w)) target = None"
  using assms by (simp add: run_missing exit_code_def)

theorem missing_file_fails_witness:
  "fst (run Posix \<lparr>files = Map.empty, stdout = []\<rparr>) = Inl FileNotFoundError
   \<and> exit_code (fst (run Posix \<lparr>files = Map.empty, stdout = []\<rparr>)) \<noteq> 0
   \<and> stdout (snd (run Posix \<lparr>files = Map.empty, stdout = []\<rparr>)) = []
   \<and> files (snd (run Posix \<lparr>files = Map.empty, stdout = []\<rparr>)) target = None"
  using missing_file_fails [of "\<lparr>files = Map.empty, stdout = []\<rparr>" Posix] by auto

text \<open>
  C8, as amended. Running the script again is idempotent: for every text, the two steps
  applied twice give the same text as applied once, and for every world, the files after
  a second run are the files after the first run.
\<close>

theorem rerun_idempotent:
  "patch (patch content) = patch content
   \<and> files (snd (run pf (snd (run pf w)))) = files (snd (run pf w))"
proof (cases "files w target")
  case None
  then show ?thesis by (simp add: patch_patch run_missing)
next
  case (Some raw)
  let ?w1 = "snd (run pf w)"
  let ?t = "patch (universal_newlines raw)"
  have "CR \<notin> set ?t"
    by (simp add: CR_notin_patch CR_notin_universal_newlines)
  then have rb: "universal_newlines (write_newlines pf ?t) = ?t"
    by (rule read_back)
  from Some have f1: "files ?w1 target = Some (write_newlines pf ?t)"
    by (simp add: run_found)
  then have "files (snd (run pf ?w1))
      = (files ?w1)(target \<mapsto> write_newlines pf (patch (universal_newlines (write_newlines pf ?t))))"
    by (simp add: run_found)
  also have "\<dots> = (files ?w1)(target \<mapsto> write_newlines pf ?t)"
    by (simp add: rb patch_patch)
  also have "\<dots> = files ?w1"
    using f1 by (simp add: map_upd_triv)
  finally show ?thesis by (simp add: patch_patch)
qed

text \<open>
  So there is no text on which applying the two steps twice differs from applying them
  once.
\<close>

theorem rerun_not_idempotent_counterexample:
  "\<not> (\<exists>content. patch (patch content) \<noteq> patch content)"
  by (simp add: patch_patch)

text \<open>
  C9, as amended. Two runs that start with the same content of the target file (or both
  without the file) end with the same result, add the same lines to standard output and
  leave a target file that reads as the same text; nothing else of the world is looked
  at. The content of the written file is the text read, patched, with its line ends
  translated to the line separator of the platform: on the same platform the two files
  are equal.
\<close>

theorem run_depends_on_target_only:
  assumes "files w1 target = files w2 target"
  shows "fst (run pf1 w1) = fst (run pf2 w2)
    \<and> (\<exists>out. stdout (snd (run pf1 w1)) = stdout w1 @ out
            \<and> stdout (snd (run pf2 w2)) = stdout w2 @ out)
    \<and> read_text target (snd (run pf1 w1)) = read_text target (snd (run pf2 w2))
    \<and> files (snd (run pf1 w1)) target
        = map_option (\<lambda>raw. write_newlines pf1 (patch (universal_newlines raw))) (files w1 target)
    \<and> (pf1 = pf2 \<longrightarrow> files (snd (run pf1 w1)) target = files (snd (run pf2 w2)) target)"
proof (cases "files w1 target")
  case None
  with assms have "files w2 target = None" by simp
  with None show ?thesis by (simp add: run_missing read_text_def)
next
  case (Some raw)
  with assms have w2: "files w2 target = Some raw" by simp
  from Some have r1: "read_text target w1 = Inr (universal_newlines raw)"
    by (simp add: read_text_def)
  from w2 have r2: "read_text target w2 = Inr (universal_newlines raw)"
    by (simp add: read_text_def)
  have "read_text target (snd (run pf1 w1)) = read_text target (snd (run pf2 w2))"
    by (simp add: read_after_run [OF r1] read_after_run [OF r2])
  moreover have "files (snd (run pf1 w1)) target
      = map_option (\<lambda>raw. write_newlines pf1 (patch (universal_newlines raw))) (files w1 target)"
    by (rule run_files)
  moreover have "fst (run pf1 w1) = fst (run pf2 w2)"
    "\<exists>out. stdout (snd (run pf1 w1)) = stdout w1 @ out
        \<and> stdout (snd (run pf2 w2)) = stdout w2 @ out"
    "pf1 = pf2 \<longrightarrow> files (snd (run pf1 w1)) target = files (snd (run pf2 w2)) target"
    using Some w2 by (simp_all add: run_found)
  ultimately show ?thesis by blast
qed

theorem run_depends_on_target_only_witness:
  "files (snd (run Posix \<lparr>files = [target \<mapsto> search1], stdout = []\<rparr>)) target
     = files (snd (run Posix \<lparr>files = [''README.md'' \<mapsto> [LF], target \<mapsto> search1],
         stdout = [[LF]]\<rparr>)) target
   \<and> read_text target (snd (run Posix \<lparr>files = [target \<mapsto> search1], stdout = []\<rparr>))
     = read_text target (snd (run Windows \<lparr>files = [''README.md'' \<mapsto> [LF], target \<mapsto> search1],
         stdout = [[LF]]\<rparr>))"
proof -
  let ?w1 = "\<lparr>files = [target \<mapsto> search1], stdout = []\<rparr>"
  let ?w2 = "\<lparr>files = [''README.md'' \<mapsto> [LF], target \<mapsto> search1], stdout = [[LF]]\<rparr>"
  have h: "files ?w1 target = files ?w2 target"
    by simp
  from run_depends_on_target_only [OF h, of Posix Posix]
    run_depends_on_target_only [OF h, of Posix Windows]
  show ?thesis by blast
qed

text \<open>
  Across platforms the written files can differ: the file \<open>a\nb\<close> is written back as
  \<open>a\nb\<close> where the line separator is \<open>\n\<close> and as \<open>a\r\nb\<close> where it is \<open>\r\n\<close>.
\<close>

theorem run_depends_on_platform_counterexample:
  "files (snd (run Posix \<lparr>files = [target \<mapsto> [97, LF, 98]], stdout = []\<rparr>)) target
     = Some [97, LF, 98]
   \<and> files (snd (run Windows \<lparr>files = [target \<mapsto> [97, LF, 98]], stdout = []\<rparr>)) target
     = Some [97, CR, LF, 98]
   \<and> [97, LF, 98] \<noteq> [97, CR, LF, 98]"
proof -
  have "occurrences search1 [97, LF, 98] = 0" "occurrences search2 [97, LF, 98] = 0"
    by (simp_all add: codes LF_def)
  then have p: "patch [97, LF, 98] = [97, LF, 98]"
    by (simp add: patch_absent)
  have u: "universal_newlines [97, LF, 98] = [97, LF, 98]"
    by (simp add: LF_def CR_def)
  have w: "write_newlines Windows [97, LF, 98] = [97, CR, LF, 98]"
    by (simp add: LF_def)
  have r1: "files (snd (run Posix \<lparr>files = [target \<mapsto> [97, LF, 98]], stdout = []\<rparr>)) target
      = Some [97, LF, 98]"
    by (simp add: run_files u p write_newlines_Posix del: universal_newlines.simps)
  have r2: "files (snd (run Windows \<lparr>files = [target \<mapsto> [97, LF, 98]], stdout = []\<rparr>)) target
      = Some [97, CR, LF, 98]"
    by (simp add: run_files u p w del: universal_newlines.simps write_newlines.simps)
  have "[97, LF, 98] \<noteq> [97, CR, LF, 98]"
    by (simp add: LF_def CR_def)
  with r1 r2 show ?thesis by blast
qed

end
